theory Spec2Isabelle
  imports Complex_Main "HOL-Library.Word" "HOL-Library.Sublist"
begin

section \<open>Strings of the host language\<close>

text \<open>
  A string of the program is a sequence of UTF-16 code units; equality (\<open>===\<close>) is
  equality of these sequences. ASCII literals are lifted with \<open>js\<close>.
\<close>

type_synonym jschar = "16 word"
type_synonym jsstring = "jschar list"

definition js :: "string \<Rightarrow> jsstring" where
  "js s = map (\<lambda>c. of_nat (of_char c)) s"

definition newline :: jschar where
  "newline = 0x0A"

definition space :: jschar where
  "space = 0x20"

text \<open>
  \<open>s.split(sep)\<close> with a one-character separator: the pieces between the separators,
  always at least one piece (\<open>''''.split(sep)\<close> is the list holding the empty string).
\<close>

fun jsSplit :: "jschar \<Rightarrow> jsstring \<Rightarrow> jsstring list" where
  "jsSplit sep [] = [[]]"
| "jsSplit sep (c # cs) =
     (if c = sep then [] # jsSplit sep cs
      else (case jsSplit sep cs of
              [] \<Rightarrow> [[c]]
            | piece # pieces \<Rightarrow> (c # piece) # pieces))"

text \<open>
  The code units that \<open>trim\<close> removes: the WhiteSpace and LineTerminator productions
  of the language (tab, vertical tab, form feed, space, no-break space, the byte order
  mark, the space separators of Unicode, line feed, carriage return, line and paragraph
  separator).
\<close>

definition isWhiteSpace :: "jschar \<Rightarrow> bool" where
  "isWhiteSpace c =
     (c = 0x09 \<or> c = 0x0A \<or> c = 0x0B \<or> c = 0x0C \<or> c = 0x0D \<or> c = 0x20 \<or> c = 0xA0
      \<or> c = 0x1680 \<or> (0x2000 \<le> c \<and> c \<le> 0x200A) \<or> c = 0x2028 \<or> c = 0x2029
      \<or> c = 0x202F \<or> c = 0x205F \<or> c = 0x3000 \<or> c = 0xFEFF)"

definition trim :: "jsstring \<Rightarrow> jsstring" where
  "trim s = rev (dropWhile isWhiteSpace (rev (dropWhile isWhiteSpace s)))"

text \<open>A string used as a condition is true when it is not empty.\<close>

definition truthy :: "jsstring \<Rightarrow> bool" where
  "truthy s = (s \<noteq> [])"

section \<open>Pages\<close>

record PageContent =
  title :: jsstring
  content :: "jsstring list"
  pageNumber :: nat
  totalPages :: nat

text \<open>The title of every page after the first, U+7EE7 U+7EED U+9605 U+8BFB.\<close>

definition continuationTitle :: jsstring where
  "continuationTitle = [0x7EE7, 0x7EED, 0x9605, 0x8BFB]"

text \<open>
  \<open>Math.ceil(n / 12)\<close> on an array length \<open>n\<close>: the quotient is a double, and for
  every length an array can have it is within one unit in the last place of the exact
  quotient, so its ceiling is the ceiling of the exact quotient.
\<close>

definition ceilDiv12 :: "nat \<Rightarrow> nat" where
  "ceilDiv12 n = nat \<lceil>real n / 12\<rceil>"

text \<open>
  The loop of \<open>splitContentIntoPages\<close>, with its variables \<open>i\<close>, \<open>pages\<close>,
  \<open>currentPage\<close> and \<open>pageCount\<close> as arguments.
\<close>

function pagesLoop ::
  "jsstring list \<Rightarrow> nat \<Rightarrow> PageContent list \<Rightarrow> jsstring list \<Rightarrow> nat \<Rightarrow> PageContent list"
where
  "pagesLoop paragraphs i pages currentPage pageCount =
     (if i < length paragraphs then
        (let currentPage' = currentPage @ [paragraphs ! i] in
         if length currentPage' \<ge> 12 \<or> i = length paragraphs - 1 then
           (let pageCount' = pageCount + 1 in
            pagesLoop paragraphs (i + 1)
              (pages @ [\<lparr> title = (if pageCount' = 1 then paragraphs ! 0 else continuationTitle),
                          content = currentPage',
                          pageNumber = pageCount',
                          totalPages = ceilDiv12 (length paragraphs) \<rparr>])
              [] pageCount')
         else pagesLoop paragraphs (i + 1) pages currentPage' pageCount)
      else pages)"
  by pat_completeness auto
termination
  by (relation "measure (\<lambda>(paragraphs, i, pages, currentPage, pageCount). length paragraphs - i)")
     auto

text \<open>
  The \<open>paragraphs\<close> of \<open>splitContentIntoPages\<close>: the pieces of the text between line
  feeds whose \<open>trim\<close> is a true condition. The text is the parameter \<open>content\<close> of
  the source, written \<open>body\<close> here because \<open>content\<close> is also a field of a page.
\<close>

definition nonBlankLines :: "jsstring \<Rightarrow> jsstring list" where
  "nonBlankLines body = filter (\<lambda>line. truthy (trim line)) (jsSplit newline body)"

definition splitContentIntoPages :: "jsstring \<Rightarrow> PageContent list" where
  "splitContentIntoPages body = pagesLoop (nonBlankLines body) 0 [] [] 0"

text \<open>A line is blank when it is empty or holds white space only.\<close>

definition blankLine :: "jsstring \<Rightarrow> bool" where
  "blankLine line = (\<forall>c \<in> set line. isWhiteSpace c)"

section \<open>Front matter\<close>

definition startMarker :: jsstring where
  "startMarker = js ''---''"

definition endMarker :: jsstring where
  "endMarker = js ''---'' @ [newline]"

text \<open>
  The tail \<open>[\s\S]*?---\n\<close> of the pattern: the lazy quantifier takes as few code
  units (of any kind) as it can before the end marker; the result is the text after the
  match, or nothing when the end marker does not occur.
\<close>

fun lazyMatchEnd :: "jsstring \<Rightarrow> jsstring option" where
  "lazyMatchEnd [] = None"
| "lazyMatchEnd (c # cs) =
     (if prefix endMarker (c # cs) then Some (drop (length endMarker) (c # cs))
      else lazyMatchEnd cs)"

text \<open>
  \<open>content.replace(/^---[\s\S]*?---\n/, '')\<close>: without flags \<open>^\<close> is the start of
  the text and only the first match is replaced; a text without a match is returned as
  it is.
\<close>

definition stripFrontMatter :: "jsstring \<Rightarrow> jsstring" where
  "stripFrontMatter body =
     (if prefix startMarker body then
        (case lazyMatchEnd (drop (length startMarker) body) of
           Some rest \<Rightarrow> rest
         | None \<Rightarrow> body)
      else body)"

section \<open>Word wrap\<close>

text \<open>
  The loop of \<open>wrapText\<close> over the words, with \<open>lines\<close> and \<open>currentLine\<close> as
  arguments; \<open>measureText\<close> is the width the drawing context measures for a text in
  its current font.
\<close>

fun wrapLoop ::
  "(jsstring \<Rightarrow> 'w::linorder) \<Rightarrow> 'w \<Rightarrow> jsstring list \<Rightarrow> jsstring list \<Rightarrow> jsstring \<Rightarrow> jsstring list"
where
  "wrapLoop measureText maxWidth [] lines currentLine = lines @ [currentLine]"
| "wrapLoop measureText maxWidth (word # words) lines currentLine =
     (let testLine = currentLine @ word @ [space] in
      if measureText testLine > maxWidth \<and> currentLine \<noteq> [] then
        wrapLoop measureText maxWidth words (lines @ [currentLine]) (word @ [space])
      else wrapLoop measureText maxWidth words lines testLine)"

definition wrapText :: "(jsstring \<Rightarrow> 'w::linorder) \<Rightarrow> jsstring \<Rightarrow> 'w \<Rightarrow> jsstring list" where
  "wrapText measureText text maxWidth = wrapLoop measureText maxWidth (jsSplit space text) [] []"

section \<open>Rendering one page\<close>

text \<open>
  A drawing context is its current fill style and font and the drawing calls made on
  it so far, each recorded with the style and font in force.
\<close>

datatype drawOp =
    FillRect jsstring int int int int
  | FillText jsstring jsstring jsstring int int

record context2d =
  fillStyle :: jsstring
  font :: jsstring
  drawn :: "drawOp list"

definition freshContext :: context2d where
  "freshContext = \<lparr> fillStyle = js ''#000000'', font = js ''10px sans-serif'', drawn = [] \<rparr>"

definition fillRect :: "context2d \<Rightarrow> int \<Rightarrow> int \<Rightarrow> int \<Rightarrow> int \<Rightarrow> context2d" where
  "fillRect ctx x y w h = ctx\<lparr> drawn := drawn ctx @ [FillRect (fillStyle ctx) x y w h] \<rparr>"

definition fillText :: "context2d \<Rightarrow> jsstring \<Rightarrow> int \<Rightarrow> int \<Rightarrow> context2d" where
  "fillText ctx s x y = ctx\<lparr> drawn := drawn ctx @ [FillText (fillStyle ctx) (font ctx) s x y] \<rparr>"

definition width :: int where
  "width = 1080"

definition height :: int where
  "height = 1440"

definition margin :: int where
  "margin = 60"

definition lineHeight :: int where
  "lineHeight = 50"

text \<open>A page number or page count written in decimal, as a template literal does.\<close>

fun numberToString :: "nat \<Rightarrow> jsstring" where
  "numberToString n =
     (if n < 10 then [of_nat (48 + n)]
      else numberToString (n div 10) @ [of_nat (48 + n mod 10)])"

text \<open>
  The inner loop over the wrapped lines of one paragraph: \<open>break\<close> leaves the loop
  with the context and the cursor \<open>y\<close> as they are.
\<close>

fun drawLines :: "jsstring list \<Rightarrow> context2d \<times> int \<Rightarrow> context2d \<times> int" where
  "drawLines [] (ctx, y) = (ctx, y)"
| "drawLines (line # lines) (ctx, y) =
     (if y > height - 100 then (ctx, y)
      else drawLines lines (fillText ctx line margin y, y + lineHeight))"

text \<open>
  The body of the outer loop after its \<open>continue\<close>: wrap the paragraph, draw its
  lines, add the paragraph spacing.
\<close>

definition renderParagraph ::
  "(jsstring \<Rightarrow> jsstring \<Rightarrow> real) \<Rightarrow> real \<Rightarrow> jsstring \<Rightarrow> context2d \<times> int \<Rightarrow> context2d \<times> int"
where
  "renderParagraph measureText maxWidth paragraph st =
     (let lines = wrapText (measureText (font (fst st))) paragraph maxWidth;
          (ctx, y) = drawLines lines st
      in (ctx, y + 20))"

text \<open>The outer loop over the paragraphs of the page.\<close>

fun drawParagraphs ::
  "(jsstring \<Rightarrow> jsstring \<Rightarrow> real) \<Rightarrow> real \<Rightarrow> PageContent \<Rightarrow> jsstring list
     \<Rightarrow> context2d \<times> int \<Rightarrow> context2d \<times> int"
where
  "drawParagraphs measureText maxWidth page [] st = st"
| "drawParagraphs measureText maxWidth page (paragraph # paragraphs) st =
     (if paragraph = title page \<and> pageNumber page = 1 then
        drawParagraphs measureText maxWidth page paragraphs st
      else drawParagraphs measureText maxWidth page paragraphs
             (renderParagraph measureText maxWidth paragraph st))"

text \<open>
  \<open>canvas.toDataURL('image/png')\<close> of a canvas that has a size: a data URL, the PNG
  encoding \<open>png\<close> of what was drawn after a fixed prefix.
\<close>

definition toDataURL :: "(drawOp list \<Rightarrow> jsstring) \<Rightarrow> context2d \<Rightarrow> jsstring" where
  "toDataURL png ctx = js ''data:image/png;base64,'' @ png (drawn ctx)"

text \<open>
  What one call of \<open>generateSinglePageImage\<close> leaves behind: the drawing calls made on
  the canvas of the page, and the value returned (\<open>None\<close> for \<open>undefined\<close>).
\<close>

record rendering =
  painted :: "drawOp list"
  returned :: "jsstring option"

text \<open>
  \<open>getContext\<close> is what \<open>canvas.getContext('2d')\<close> gave for the canvas of this page:
  a context, or \<open>None\<close> for \<open>null\<close>.
\<close>

definition generateSinglePageImage ::
  "(jsstring \<Rightarrow> jsstring \<Rightarrow> real) \<Rightarrow> (drawOp list \<Rightarrow> jsstring) \<Rightarrow> context2d option
     \<Rightarrow> PageContent \<Rightarrow> jsstring \<Rightarrow> rendering"
where
  "generateSinglePageImage measureText png getContext page fileName =
     (case getContext of
        None \<Rightarrow> \<lparr> painted = [], returned = None \<rparr>
      | Some ctx0 \<Rightarrow>
          (let ctx1 = fillRect (ctx0\<lparr> fillStyle := js ''#ffffff'' \<rparr>) 0 0 width height;
               y0 = margin + 50;
               ctx2 = fillText (ctx1\<lparr> fillStyle := js ''#333333'',
                                      font := js ''bold 48px \"PingFang SC\"'' \<rparr>)
                        (title page) margin y0;
               y1 = y0 + 100;
               ctx3 = ctx2\<lparr> font := js ''36px \"PingFang SC\"'' \<rparr>;
               maxWidth = real_of_int (width - margin * 2);
               (ctx4, y2) = drawParagraphs measureText maxWidth page (content page) (ctx3, y1);
               ctx5 = fillText (ctx4\<lparr> fillStyle := js ''#666666'',
                                      font := js ''28px \"PingFang SC\"'' \<rparr>)
                        (numberToString (pageNumber page) @ js ''/'' @ numberToString (totalPages page))
                        (width - 100) (height - 50)
           in \<lparr> painted = drawn ctx5, returned = Some (toDataURL png ctx5) \<rparr>))"

section \<open>Rendering all pages\<close>

text \<open>
  The loop of \<open>generateRedNoteImages\<close> over the pages; \<open>surface k\<close> tells whether the
  canvas created for the page at index \<open>k\<close> gives a drawing context.
\<close>

fun renderLoop ::
  "(jsstring \<Rightarrow> jsstring \<Rightarrow> real) \<Rightarrow> (drawOp list \<Rightarrow> jsstring) \<Rightarrow> (nat \<Rightarrow> bool) \<Rightarrow> jsstring
     \<Rightarrow> nat \<Rightarrow> PageContent list \<Rightarrow> jsstring list \<Rightarrow> jsstring list"
where
  "renderLoop measureText png surface fileName k [] images = images"
| "renderLoop measureText png surface fileName k (page # pages) images =
     (let imageData = returned (generateSinglePageImage measureText png
                                  (if surface k then Some freshContext else None) page fileName)
      in renderLoop measureText png surface fileName (k + 1) pages
           (case imageData of
              None \<Rightarrow> images
            | Some url \<Rightarrow> if truthy url then images @ [url] else images))"

definition generateRedNoteImages ::
  "(jsstring \<Rightarrow> jsstring \<Rightarrow> real) \<Rightarrow> (drawOp list \<Rightarrow> jsstring) \<Rightarrow> (nat \<Rightarrow> bool)
     \<Rightarrow> jsstring \<Rightarrow> jsstring \<Rightarrow> jsstring list"
where
  "generateRedNoteImages measureText png surface body fileName =
     renderLoop measureText png surface fileName 0
       (splitContentIntoPages (stripFrontMatter body)) []"

section \<open>Sample documents\<close>

text \<open>Two lines of text with an empty line and a line holding one space between them.\<close>

definition doc1 :: jsstring where
  "doc1 = js ''a'' @ [newline, newline, space, newline] @ js ''b''"

text \<open>Thirteen lines of text, one more than a page holds.\<close>

definition doc13 :: jsstring where
  "doc13 = concat (replicate 13 (js ''x'' @ [newline]))"

text \<open>A document of white space only.\<close>

definition blankDoc :: jsstring where
  "blankDoc = [space, newline, 0x09, newline]"

text \<open>A text of three words, the last one wider than five characters.\<close>

definition sampleText :: jsstring where
  "sampleText = js ''ab cd efghijk''"

text \<open>
  The wording of the specification for a document that has a front-matter block: it
  begins with the start marker on a line of its own, and a later line, ended by a line
  break, is the end marker.
\<close>

definition delimitedBlockAtStart :: "jsstring \<Rightarrow> bool" where
  "delimitedBlockAtStart body =
     (case jsSplit newline body of
        [] \<Rightarrow> False
      | l # ls \<Rightarrow> l = startMarker \<and> startMarker \<in> set (butlast ls))"

text \<open>A document whose first line carries both markers around other text.\<close>

definition inlineMarkers :: jsstring where
  "inlineMarkers = js ''---a---'' @ [newline] @ js ''b''"

text \<open>A document with a front-matter block of one key, followed by one line of text.\<close>

definition frontMatterDoc :: jsstring where
  "frontMatterDoc = js ''---'' @ [newline] @ js ''key: value'' @ [newline] @ js ''---'' @ [newline] @ js ''text''"

text \<open>
  A document with a front-matter block of two keys in which the line of the first key
  ends in three hyphens.
\<close>

definition leakDoc :: jsstring where
  "leakDoc = js ''---'' @ [newline] @ js ''k: v---'' @ [newline] @ js ''x: y'' @ [newline]
             @ js ''---'' @ [newline] @ js ''text''"

section \<open>Sample pages and a sample drawing surface\<close>

text \<open>A font in which every text measures 1000 pixels, more than the 960 a line may take.\<close>

definition wideMetrics :: "jsstring \<Rightarrow> jsstring \<Rightarrow> real" where
  "wideMetrics f s = 1000"

text \<open>A stand-in for the PNG encoder: one code unit, the number of drawing calls.\<close>

definition samplePng :: "drawOp list \<Rightarrow> jsstring" where
  "samplePng ops = [of_nat (length ops)]"

text \<open>
  A first page whose content is its title and a paragraph of thirty one-letter words,
  which wraps into thirty lines, more than the page has room for.
\<close>

definition longPage :: PageContent where
  "longPage = \<lparr> title = js ''T'', content = [js ''T'', concat (replicate 29 (js ''a '')) @ js ''a''],
                 pageNumber = 1, totalPages = 1 \<rparr>"

text \<open>A second page whose only line equals its title.\<close>

definition laterPage :: PageContent where
  "laterPage = \<lparr> title = continuationTitle, content = [continuationTitle],
                  pageNumber = 2, totalPages = 2 \<rparr>"

section \<open>Properties of the paginator\<close>

lemma truthy_trim: "truthy (trim line) = (\<not> blankLine line)"
proof -
  have inner: "(\<forall>c \<in> set (dropWhile isWhiteSpace line). isWhiteSpace c) = (\<forall>c \<in> set line. isWhiteSpace c)"
  proof (cases "dropWhile isWhiteSpace line = []")
    case True
    then have "\<forall>c \<in> set line. isWhiteSpace c" by (simp add: dropWhile_eq_Nil_conv)
    then show ?thesis by (auto dest: set_dropWhileD)
  next
    case False
    then have "\<not> isWhiteSpace (hd (dropWhile isWhiteSpace line))"
      by (rule hd_dropWhile)
    moreover from False have "hd (dropWhile isWhiteSpace line) \<in> set (dropWhile isWhiteSpace line)"
      by simp
    ultimately show ?thesis
      using set_dropWhileD [of _ isWhiteSpace line] by blast
  qed
  have "truthy (trim line) = (\<not> (\<forall>c \<in> set (dropWhile isWhiteSpace line). isWhiteSpace c))"
    by (simp add: truthy_def trim_def dropWhile_eq_Nil_conv)
  then show ?thesis
    by (simp only: inner blankLine_def)
qed

lemma nonBlankLines_filter:
  "nonBlankLines body = filter (\<lambda>line. \<not> blankLine line) (jsSplit newline body)"
  by (simp add: nonBlankLines_def truthy_trim)

declare pagesLoop.simps [simp del]

lemma ceilDiv12_div: "ceilDiv12 n = (n + 11) div 12"
proof -
  have "\<lceil>real n / 12\<rceil> = \<lceil>real_of_int (int n) / real_of_int 12\<rceil>" by simp
  also have "\<dots> = - ((- int n) div 12)" by (simp only: ceiling_divide_eq_div)
  also have "\<dots> = int ((n + 11) div 12)" by (simp add: zdiv_int)
  finally show ?thesis by (simp add: ceilDiv12_def)
qed

lemma pagesLoop_content:
  "(length paragraphs \<le> i \<longrightarrow> currentPage = []) \<Longrightarrow>
   concat (map content (pagesLoop paragraphs i pages currentPage pageCount))
     = concat (map content pages) @ currentPage @ drop i paragraphs"
proof (induction paragraphs i pages currentPage pageCount rule: pagesLoop.induct)
  case (1 paragraphs i pages currentPage pageCount)
  show ?case
  proof (cases "i < length paragraphs")
    case False
    with "1.prems" show ?thesis by (simp add: pagesLoop.simps [of paragraphs i])
  next
    case True
    then have d: "drop i paragraphs = paragraphs ! i # drop (Suc i) paragraphs"
      by (simp add: Cons_nth_drop_Suc)
    show ?thesis
    proof (cases "12 \<le> length (currentPage @ [paragraphs ! i]) \<or> i = length paragraphs - 1")
      case close: True
      from True close show ?thesis
        using "1.IH"(1) [OF True refl close refl]
        by (simp add: pagesLoop.simps [of paragraphs i] d Let_def)
    next
      case keep: False
      with True have "\<not> length paragraphs \<le> i + 1" by arith
      with True keep show ?thesis
        using "1.IH"(2) [OF True refl keep]
        by (simp add: pagesLoop.simps [of paragraphs i] d Let_def)
    qed
  qed
qed

lemma pagesLoop_all:
  assumes "\<forall>p \<in> set pages. P p"
    and "\<And>cur x pc. P \<lparr> title = (if pc + 1 = 1 then paragraphs ! 0 else continuationTitle),
                          content = cur @ [x], pageNumber = pc + 1,
                          totalPages = ceilDiv12 (length paragraphs) \<rparr>"
  shows "\<forall>p \<in> set (pagesLoop paragraphs i pages currentPage pageCount). P p"
  using assms
proof (induction paragraphs i pages currentPage pageCount rule: pagesLoop.induct)
  case (1 paragraphs i pages currentPage pageCount)
  show ?case
  proof (cases "i < length paragraphs")
    case False
    with "1.prems"(1) show ?thesis by (simp add: pagesLoop.simps [of paragraphs i])
  next
    case True
    show ?thesis
    proof (cases "12 \<le> length (currentPage @ [paragraphs ! i]) \<or> i = length paragraphs - 1")
      case close: True
      let ?page = "\<lparr> title = (if pageCount + 1 = 1 then paragraphs ! 0 else continuationTitle),
                      content = currentPage @ [paragraphs ! i], pageNumber = pageCount + 1,
                      totalPages = ceilDiv12 (length paragraphs) \<rparr>"
      have "\<forall>p \<in> set (pages @ [?page]). P p"
        using "1.prems"(1) "1.prems"(2) [of pageCount currentPage "paragraphs ! i"] by auto
      then have "\<forall>p \<in> set (pagesLoop paragraphs (i + 1) (pages @ [?page]) [] (pageCount + 1)). P p"
        using "1.IH"(1) [OF True refl close refl] "1.prems"(2) by blast
      then show ?thesis
        using True close by (simp only: pagesLoop.simps [of paragraphs i] Let_def if_True)
    next
      case keep: False
      have "\<forall>p \<in> set (pagesLoop paragraphs (i + 1) pages (currentPage @ [paragraphs ! i]) pageCount). P p"
        using "1.IH"(2) [OF True refl keep] "1.prems" by blast
      then show ?thesis
        using True keep by (simp only: pagesLoop.simps [of paragraphs i] Let_def if_True if_False)
    qed
  qed
qed

lemma pagesLoop_nonempty:
  "\<forall>p \<in> set (pagesLoop paragraphs i [] currentPage pageCount). content p \<noteq> []"
  by (rule pagesLoop_all) simp_all

lemma pagesLoop_totalPages:
  "\<forall>p \<in> set (pagesLoop paragraphs i [] currentPage pageCount).
      totalPages p = ceilDiv12 (length paragraphs)"
  by (rule pagesLoop_all) simp_all

lemma pagesLoop_title:
  "\<forall>p \<in> set (pagesLoop paragraphs i [] currentPage pageCount).
      title p = (if pageNumber p = 1 then paragraphs ! 0 else continuationTitle)"
  by (rule pagesLoop_all) simp_all

lemma pagesLoop_pageNumber:
  "length currentPage < 12 \<Longrightarrow> (length paragraphs \<le> i \<longrightarrow> currentPage = []) \<Longrightarrow>
   map pageNumber (pagesLoop paragraphs i pages currentPage pageCount)
     = map pageNumber pages @
       [pageCount + 1 ..< pageCount + 1 + (length currentPage + (length paragraphs - i) + 11) div 12]"
proof (induction paragraphs i pages currentPage pageCount rule: pagesLoop.induct)
  case (1 paragraphs i pages currentPage pageCount)
  show ?case
  proof (cases "i < length paragraphs")
    case False
    with "1.prems" show ?thesis by (simp add: pagesLoop.simps [of paragraphs i])
  next
    case True
    show ?thesis
    proof (cases "12 \<le> length (currentPage @ [paragraphs ! i]) \<or> i = length paragraphs - 1")
      case close: True
      have k: "(length currentPage + (length paragraphs - i) + 11) div 12
                 = Suc ((length paragraphs - (i + 1) + 11) div 12)"
        using True close "1.prems"(1) by auto
      have "map pageNumber (pagesLoop paragraphs i pages currentPage pageCount)
              = map pageNumber pages @ (pageCount + 1) #
                [pageCount + 2 ..< pageCount + 2 + (length paragraphs - (i + 1) + 11) div 12]"
        using True close "1.IH"(1) [OF True refl close refl]
        by (simp add: pagesLoop.simps [of paragraphs i] Let_def)
      then show ?thesis
        by (simp add: k upt_conv_Cons)
    next
      case keep: False
      with True have n: "\<not> length paragraphs \<le> i + 1" by arith
      have l: "length (currentPage @ [paragraphs ! i]) < 12" using keep by simp
      have k: "length (currentPage @ [paragraphs ! i]) + (length paragraphs - (i + 1))
                 = length currentPage + (length paragraphs - i)"
        using True by simp
      from True keep show ?thesis
        using "1.IH"(2) [OF True refl keep l] n
        by (simp only: pagesLoop.simps [of paragraphs i] Let_def k if_True if_False simp_thms)
    qed
  qed
qed

lemma splitContentIntoPages_Nil:
  "nonBlankLines body = [] \<Longrightarrow> splitContentIntoPages body = []"
  by (simp add: splitContentIntoPages_def pagesLoop.simps [of "[]"])

lemma doc1_lines: "filter (\<lambda>line. \<not> blankLine line) (jsSplit newline doc1) = [js ''a'', js ''b'']"
  by (simp add: doc1_def js_def newline_def space_def blankLine_def isWhiteSpace_def)

lemma doc13_lines: "length (filter (\<lambda>line. \<not> blankLine line) (jsSplit newline doc13)) = 13"
  by code_simp

lemma doc1_pages: "splitContentIntoPages doc1 \<noteq> []"
  by code_simp

lemma doc13_first:
  "filter (\<lambda>line. \<not> blankLine line) (jsSplit newline doc13)
     = js ''x'' # tl (filter (\<lambda>line. \<not> blankLine line) (jsSplit newline doc13))"
  by code_simp

lemma doc13_numbers: "map pageNumber (splitContentIntoPages doc13) = [1, 2]"
  by code_simp

text \<open>
  Claim C1. For every document, the \<open>content\<close> lists of the pages returned by the
  paginator, concatenated in page order, are exactly the non-blank lines of the document
  (the lines between line breaks that are neither empty nor white space only), in their
  original order: no line is lost, duplicated or moved.
\<close>

theorem pages_cover_nonblank_lines:
  "concat (map content (splitContentIntoPages body))
     = filter (\<lambda>line. \<not> blankLine line) (jsSplit newline body)"
proof -
  have "concat (map content (pagesLoop (nonBlankLines body) 0 [] [] 0)) = nonBlankLines body"
    using pagesLoop_content [of "nonBlankLines body" 0 "[]" "[]" 0] by simp
  then show ?thesis
    by (simp only: splitContentIntoPages_def nonBlankLines_filter)
qed

theorem pages_cover_nonblank_lines_witness:
  "concat (map content (splitContentIntoPages doc1)) = [js ''a'', js ''b'']"
  using pages_cover_nonblank_lines [of doc1] by (simp only: doc1_lines)

text \<open>
  Claim C2. With \<open>N\<close> the number of non-blank lines of the document, every page returned
  carries \<open>totalPages = ceil (N / 12)\<close>, and the page numbers of the returned pages, in
  order, are \<open>1, 2, ..., totalPages\<close>, without gap or repetition. (For \<open>N = 0\<close> there is
  no page, and the sequence is empty.)
\<close>

theorem pages_numbered_contiguously:
  "(\<forall>p \<in> set (splitContentIntoPages body).
       totalPages p = nat \<lceil>real (length (filter (\<lambda>line. \<not> blankLine line) (jsSplit newline body))) / 12\<rceil>)
   \<and> map pageNumber (splitContentIntoPages body)
       = [1 ..< Suc (nat \<lceil>real (length (filter (\<lambda>line. \<not> blankLine line) (jsSplit newline body))) / 12\<rceil>)]"
proof -
  let ?ps = "nonBlankLines body"
  have t: "\<forall>p \<in> set (splitContentIntoPages body). totalPages p = ceilDiv12 (length ?ps)"
    unfolding splitContentIntoPages_def by (rule pagesLoop_totalPages)
  have "map pageNumber (pagesLoop ?ps 0 [] [] 0) = [1 ..< 1 + (length ?ps + 11) div 12]"
    using pagesLoop_pageNumber [of "[]" ?ps 0 "[]" 0] by simp
  then have n: "map pageNumber (splitContentIntoPages body) = [1 ..< Suc (ceilDiv12 (length ?ps))]"
    by (simp add: splitContentIntoPages_def ceilDiv12_div)
  from t n show ?thesis
    by (simp only: ceilDiv12_def nonBlankLines_filter simp_thms)
qed

theorem pages_numbered_contiguously_witness:
  "map totalPages (splitContentIntoPages doc13) = [2, 2]
   \<and> map pageNumber (splitContentIntoPages doc13) = [1, 2]"
proof -
  have c: "nat \<lceil>real 13 / 12\<rceil> = 2" by simp
  have u: "[1 ..< Suc 2] = [1, 2]" by (simp add: upt_rec)
  from pages_numbered_contiguously [of doc13]
  have tot: "\<forall>p \<in> set (splitContentIntoPages doc13). totalPages p = 2"
    and nums: "map pageNumber (splitContentIntoPages doc13) = [1, 2]"
    unfolding doc13_lines c u by blast+
  from nums obtain p q where "splitContentIntoPages doc13 = [p, q]"
    by (auto simp: map_eq_Cons_conv)
  with tot have "map totalPages (splitContentIntoPages doc13) = [2, 2]" by simp
  with nums show ?thesis by blast
qed

text \<open>
  Claim C3. No page returned by the paginator has an empty \<open>content\<close> list; a document
  whose lines are all blank gives no page at all.
\<close>

theorem no_empty_page:
  "(\<forall>p \<in> set (splitContentIntoPages body). content p \<noteq> [])
   \<and> ((\<forall>line \<in> set (jsSplit newline body). blankLine line) \<longrightarrow> splitContentIntoPages body = [])"
proof -
  have a: "\<forall>p \<in> set (splitContentIntoPages body). content p \<noteq> []"
    unfolding splitContentIntoPages_def by (rule pagesLoop_nonempty)
  have b: "splitContentIntoPages body = []" if "\<forall>line \<in> set (jsSplit newline body). blankLine line"
  proof -
    from that have "nonBlankLines body = []"
      by (simp add: nonBlankLines_filter filter_empty_conv)
    then show ?thesis by (rule splitContentIntoPages_Nil)
  qed
  from a b show ?thesis by blast
qed

theorem no_empty_page_witness:
  "splitContentIntoPages doc1 \<noteq> []
   \<and> [] \<notin> set (map content (splitContentIntoPages doc1))
   \<and> splitContentIntoPages blankDoc = []"
proof -
  have b: "\<forall>line \<in> set (jsSplit newline blankDoc). blankLine line"
    by (simp add: blankDoc_def newline_def space_def blankLine_def isWhiteSpace_def)
  from no_empty_page [of blankDoc] b have e: "splitContentIntoPages blankDoc = []" by blast
  from no_empty_page [of doc1] have "[] \<notin> set (map content (splitContentIntoPages doc1))"
    by auto
  with doc1_pages e show ?thesis by blast
qed

text \<open>
  Claim C4. For a document with at least one non-blank line, the first page returned has
  page number 1, its title is the first non-blank line of the document, that line is also
  the first element of its \<open>content\<close>, and every page with a page number greater than 1
  has the continuation title.
\<close>

theorem first_page_title:
  assumes "filter (\<lambda>line. \<not> blankLine line) (jsSplit newline body) = first # rest"
  shows "\<exists>p ps lines. splitContentIntoPages body = p # ps
           \<and> pageNumber p = 1 \<and> title p = first \<and> content p = first # lines
           \<and> (\<forall>q \<in> set (p # ps). 1 < pageNumber q \<longrightarrow> title q = continuationTitle)"
proof -
  let ?ps = "nonBlankLines body"
  let ?pages = "splitContentIntoPages body"
  from assms have ps: "?ps = first # rest" by (simp only: nonBlankLines_filter)
  have "map pageNumber ?pages = [1 ..< 1 + (length ?ps + 11) div 12]"
    using pagesLoop_pageNumber [of "[]" ?ps 0 "[]" 0] by (simp add: splitContentIntoPages_def)
  moreover have "0 < (length ?ps + 11) div 12" by (simp add: ps)
  then have "[1 ..< 1 + (length ?ps + 11) div 12] = 1 # [Suc 1 ..< 1 + (length ?ps + 11) div 12]"
    by (intro upt_conv_Cons) simp
  ultimately have "map pageNumber ?pages = 1 # [Suc 1 ..< 1 + (length ?ps + 11) div 12]"
    by (simp only:)
  then obtain p ps where pages: "?pages = p # ps" and one: "pageNumber p = 1"
    by (auto simp: map_eq_Cons_conv)
  have titles: "\<forall>q \<in> set ?pages. title q = (if pageNumber q = 1 then ?ps ! 0 else continuationTitle)"
    unfolding splitContentIntoPages_def by (rule pagesLoop_title)
  with pages one ps have tp: "title p = first" by simp
  from titles have later: "\<forall>q \<in> set (p # ps). 1 < pageNumber q \<longrightarrow> title q = continuationTitle"
    by (simp add: pages)
  have "content p \<noteq> []"
    using pagesLoop_nonempty [of ?ps 0 "[]" 0] pages by (simp add: splitContentIntoPages_def)
  then obtain x lines where cp: "content p = x # lines"
    by (cases "content p") auto
  have "concat (map content ?pages) = ?ps"
    using pagesLoop_content [of ?ps 0 "[]" "[]" 0] by (simp add: splitContentIntoPages_def)
  with pages cp ps have "x = first" by simp
  with pages one tp cp later show ?thesis by blast
qed

theorem first_page_title_witness:
  "map title (splitContentIntoPages doc13) = [js ''x'', continuationTitle]
   \<and> hd (content (hd (splitContentIntoPages doc13))) = js ''x''"
proof -
  from first_page_title [OF doc13_first]
  obtain p ps lines where pages: "splitContentIntoPages doc13 = p # ps"
    and t: "title p = js ''x''" and c: "content p = js ''x'' # lines"
    and later: "\<forall>q \<in> set (p # ps). 1 < pageNumber q \<longrightarrow> title q = continuationTitle"
    by blast
  from doc13_numbers pages obtain q where ps: "ps = [q]" and "pageNumber q = 2"
    by (auto simp: map_eq_Cons_conv)
  with later have "title q = continuationTitle" by simp
  with pages ps t c show ?thesis by simp
qed

section \<open>Properties of the word wrap\<close>

lemma jsSplit_not_Nil: "jsSplit sep s \<noteq> []"
  by (induction s) (auto split: list.splits)

lemma jsSplit_join: "concat (map (\<lambda>w. w @ [sep]) (jsSplit sep s)) = s @ [sep]"
proof (induction s)
  case Nil
  show ?case by simp
next
  case (Cons c cs)
  show ?case
  proof (cases "c = sep")
    case True
    with Cons show ?thesis by simp
  next
    case False
    obtain piece pieces where p: "jsSplit sep cs = piece # pieces"
      using jsSplit_not_Nil [of sep cs] by (cases "jsSplit sep cs") auto
    with Cons False show ?thesis by simp
  qed
qed

lemma wrapLoop_concat:
  "concat (wrapLoop measureText maxWidth ws lines currentLine)
     = concat lines @ currentLine @ concat (map (\<lambda>w. w @ [space]) ws)"
  by (induction ws arbitrary: lines currentLine) (simp_all add: Let_def)

lemma wrapLoop_not_Nil: "wrapLoop measureText maxWidth ws lines currentLine \<noteq> []"
  by (induction ws arbitrary: lines currentLine) (simp_all add: Let_def)

lemma wrapLoop_all:
  assumes "\<forall>f \<in> set lines. P f"
    and "currentLine \<noteq> [] \<longrightarrow> P currentLine"
    and "currentLine = [] \<longrightarrow> ws \<noteq> []"
    and "\<forall>w \<in> set ws. P (w @ [space])"
    and "\<forall>f. measureText f \<le> maxWidth \<longrightarrow> P f"
  shows "\<forall>f \<in> set (wrapLoop measureText maxWidth ws lines currentLine). P f"
  using assms
proof (induction ws arbitrary: lines currentLine)
  case Nil
  then show ?case by simp
next
  case (Cons w ws)
  let ?test = "currentLine @ w @ [space]"
  from Cons.prems(4) have w: "P (w @ [space])" and ws: "\<forall>w \<in> set ws. P (w @ [space])" by simp_all
  show ?case
  proof (cases "measureText ?test > maxWidth \<and> currentLine \<noteq> []")
    case True
    have "\<forall>f \<in> set (lines @ [currentLine]). P f"
      using Cons.prems(1,2) True by simp
    then have "\<forall>f \<in> set (wrapLoop measureText maxWidth ws (lines @ [currentLine]) (w @ [space])). P f"
      using w ws Cons.prems(5) by (intro Cons.IH) simp_all
    moreover have "wrapLoop measureText maxWidth (w # ws) lines currentLine
                     = wrapLoop measureText maxWidth ws (lines @ [currentLine]) (w @ [space])"
      using True by (simp add: Let_def)
    ultimately show ?thesis by (simp only:)
  next
    case False
    have "P ?test"
    proof (cases "currentLine = []")
      case True
      with w show ?thesis by simp
    next
      case nonempty: False
      with False have "measureText ?test \<le> maxWidth" by simp
      with Cons.prems(5) show ?thesis by blast
    qed
    then have "\<forall>f \<in> set (wrapLoop measureText maxWidth ws lines ?test). P f"
      using ws Cons.prems(1,5) by (intro Cons.IH) simp_all
    moreover have "wrapLoop measureText maxWidth (w # ws) lines currentLine
                     = wrapLoop measureText maxWidth ws lines ?test"
      using False by (auto simp: Let_def)
    ultimately show ?thesis by (simp only:)
  qed
qed

lemma sample_wrap: "wrapText (\<lambda>s. int (length s)) sampleText 5 = [js ''ab '', js ''cd '', js ''efghijk '']"
  by code_simp

text \<open>
  Claim C10. For every text, the fragments returned by the word wrap, concatenated, are
  the text followed by one more space (every word is emitted once, in order, followed by
  one space), and the list of fragments is never empty; for the empty text it is the one
  fragment holding a space.
\<close>

theorem wrapText_concat:
  "concat (wrapText measureText s maxWidth) = s @ [space]
   \<and> wrapText measureText s maxWidth \<noteq> []
   \<and> wrapText measureText [] maxWidth = [[space]]"
  by (simp add: wrapText_def wrapLoop_concat wrapLoop_not_Nil jsSplit_join)

theorem wrapText_concat_witness:
  "concat (wrapText (\<lambda>s. int (length s)) sampleText 5) = sampleText @ [space]
   \<and> wrapText (\<lambda>s. int (length s)) [] 5 = [[space]]"
  using wrapText_concat [of "\<lambda>s. int (length s)" sampleText 5]
    wrapText_concat [of "\<lambda>s. int (length s)" "[]" 5]
  by blast

text \<open>
  Claim C6. For every text, every maximal width and every measuring function (monotone
  in concatenation or not), each fragment returned by the word wrap measures at most the
  maximal width, unless it is a single word with its trailing space that on its own
  measures more than the maximal width.
\<close>

theorem wrapText_fits:
  "\<forall>f \<in> set (wrapText measureText s maxWidth).
     measureText f \<le> maxWidth
     \<or> (\<exists>tok \<in> set (jsSplit space s). f = tok @ [space] \<and> maxWidth < measureText f)"
proof -
  have "\<forall>f \<in> set (wrapLoop measureText maxWidth (jsSplit space s) [] []).
          measureText f \<le> maxWidth \<or> (\<exists>tok \<in> set (jsSplit space s). f = tok @ [space])"
    by (rule wrapLoop_all) (simp_all add: jsSplit_not_Nil)
  then show ?thesis
    unfolding wrapText_def by (simp add: not_le [symmetric]) blast
qed

theorem wrapText_fits_witness:
  "js ''efghijk '' \<in> set (wrapText (\<lambda>s. int (length s)) sampleText 5)
   \<and> 5 < int (length (js ''efghijk ''))
   \<and> js ''efghijk'' \<in> set (jsSplit space sampleText)"
proof -
  have mem: "js ''efghijk '' \<in> set (wrapText (\<lambda>s. int (length s)) sampleText 5)"
    by (simp add: sample_wrap)
  have wide: "5 < int (length (js ''efghijk ''))"
    by (simp add: js_def)
  have snoc: "js ''efghijk '' = js ''efghijk'' @ [space]"
    by (simp add: js_def space_def)
  from wrapText_fits [of "\<lambda>s. int (length s)" sampleText 5] mem
  have "int (length (js ''efghijk '')) \<le> 5
        \<or> (\<exists>tok \<in> set (jsSplit space sampleText). js ''efghijk '' = tok @ [space]
               \<and> 5 < int (length (js ''efghijk '')))"
    by blast
  with wide obtain tok where "tok \<in> set (jsSplit space sampleText)"
    and "js ''efghijk '' = tok @ [space]" by auto
  with snoc have "js ''efghijk'' \<in> set (jsSplit space sampleText)" by simp
  with mem wide show ?thesis by blast
qed

section \<open>Properties of front-matter stripping\<close>

lemma lazyMatchEnd_Some:
  "lazyMatchEnd s = Some r \<Longrightarrow>
     \<exists>mid. s = mid @ endMarker @ r
       \<and> (\<forall>mid' r'. s = mid' @ endMarker @ r' \<longrightarrow> length mid \<le> length mid')"
proof (induction s)
  case Nil
  then show ?case by simp
next
  case (Cons c cs)
  show ?case
  proof (cases "prefix endMarker (c # cs)")
    case True
    with Cons.prems have r: "r = drop (length endMarker) (c # cs)" by simp
    from True obtain zs where "c # cs = endMarker @ zs" by (auto simp: prefix_def)
    with r have "c # cs = [] @ endMarker @ r" by simp
    then show ?thesis by (metis le0 list.size(3))
  next
    case False
    with Cons.prems have "lazyMatchEnd cs = Some r" by simp
    then obtain mid where mid: "cs = mid @ endMarker @ r"
      and least: "\<forall>mid' r'. cs = mid' @ endMarker @ r' \<longrightarrow> length mid \<le> length mid'"
      using Cons.IH by blast
    have "length (c # mid) \<le> length mid'" if eq: "c # cs = mid' @ endMarker @ r'" for mid' r'
    proof (cases mid')
      case Nil
      with eq have "prefix endMarker (c # cs)" by (simp add: prefix_def)
      with False show ?thesis by simp
    next
      case (Cons c' m'')
      with eq have "cs = m'' @ endMarker @ r'" by simp
      with least have "length mid \<le> length m''" by blast
      with Cons show ?thesis by simp
    qed
    moreover from mid have "c # cs = (c # mid) @ endMarker @ r" by simp
    ultimately show ?thesis by blast
  qed
qed

lemma lazyMatchEnd_None:
  "lazyMatchEnd s = None \<Longrightarrow> s \<noteq> mid @ endMarker @ r"
proof (induction s arbitrary: mid)
  case Nil
  show ?case by (simp add: endMarker_def)
next
  case (Cons c cs)
  from Cons.prems have np: "\<not> prefix endMarker (c # cs)" and rec: "lazyMatchEnd cs = None"
    by (simp_all split: if_splits)
  show ?case
  proof (cases mid)
    case Nil
    with np show ?thesis by (auto simp: prefix_def)
  next
    case (Cons c' m'')
    with Cons.IH [OF rec, of m''] show ?thesis by simp
  qed
qed

lemma stripFrontMatter_unmatched:
  assumes "\<forall>mid rest. body \<noteq> startMarker @ mid @ endMarker @ rest"
  shows "stripFrontMatter body = body"
proof (cases "prefix startMarker body")
  case False
  then show ?thesis by (simp add: stripFrontMatter_def)
next
  case True
  then obtain zs where zs: "body = startMarker @ zs" by (auto simp: prefix_def)
  have "lazyMatchEnd zs = None"
  proof (cases "lazyMatchEnd zs")
    case None
    then show ?thesis .
  next
    case (Some r)
    then obtain mid where "zs = mid @ endMarker @ r"
      using lazyMatchEnd_Some by blast
    with zs assms show ?thesis by blast
  qed
  with zs show ?thesis by (simp add: stripFrontMatter_def)
qed

lemma endMarker_startMarker: "endMarker = startMarker @ [newline]"
  by (simp add: endMarker_def startMarker_def)

lemma delimitedBlockAtStart_matches:
  assumes "delimitedBlockAtStart body"
  shows "\<exists>mid rest. body = startMarker @ mid @ endMarker @ rest"
proof -
  let ?J = "\<lambda>ws. concat (map (\<lambda>w. w @ [newline]) ws)"
  from assms obtain ls where sp: "jsSplit newline body = startMarker # ls"
    and mem: "startMarker \<in> set (butlast ls)"
    by (auto simp: delimitedBlockAtStart_def split: list.splits)
  from mem have "ls \<noteq> []" by auto
  then have ls: "ls = butlast ls @ [last ls]" by simp
  from mem obtain a b where ab: "butlast ls = a @ startMarker # b"
    by (auto dest: split_list)
  have "body @ [newline] = ?J (startMarker # ls)"
    using jsSplit_join [of newline body] sp by simp
  also have "\<dots> = ?J (startMarker # a @ startMarker # b @ [last ls])"
    using ls ab by simp
  also have "\<dots> = (startMarker @ (newline # ?J a) @ endMarker @ ?J b @ last ls) @ [newline]"
    by (simp add: endMarker_startMarker)
  finally have "body = startMarker @ (newline # ?J a) @ endMarker @ ?J b @ last ls"
    by (simp only: append_same_eq)
  then show ?thesis by blast
qed

lemma prefix_endMarker_line:
  assumes "prefix endMarker (l @ newline # tail)" and "newline \<notin> set l"
  shows "l = startMarker"
proof -
  from assms(1) obtain zs where zs: "l @ newline # tail = endMarker @ zs"
    by (auto simp: prefix_def)
  have "takeWhile (\<lambda>c. c \<noteq> newline) (l @ newline # tail) = l"
    using assms(2) by (auto simp: takeWhile_tail)
  moreover have "takeWhile (\<lambda>c. c \<noteq> newline) (endMarker @ zs) = startMarker"
    by (simp add: endMarker_def startMarker_def js_def newline_def)
  ultimately show ?thesis by (simp add: zs)
qed

lemma lazyMatchEnd_line:
  assumes "newline \<notin> set l" and "\<not> suffix startMarker l"
  shows "lazyMatchEnd (l @ newline # tail) = lazyMatchEnd tail"
  using assms
proof (induction l)
  case Nil
  have "\<not> prefix endMarker (newline # tail)"
    by (simp add: endMarker_def js_def newline_def)
  then show ?case by simp
next
  case (Cons c l)
  have "\<not> prefix endMarker ((c # l) @ newline # tail)"
    using prefix_endMarker_line [of "c # l" tail] Cons.prems by auto
  moreover have "\<not> suffix startMarker l"
    using Cons.prems(2) by (auto simp: suffix_Cons)
  ultimately show ?case using Cons.IH Cons.prems(1) by simp
qed

lemma lazyMatchEnd_lines:
  assumes "\<forall>l \<in> set ls. newline \<notin> set l \<and> \<not> suffix startMarker l"
  shows "lazyMatchEnd (concat (map (\<lambda>l. l @ [newline]) ls) @ endMarker @ rest) = Some rest"
  using assms
proof (induction ls)
  case Nil
  show ?case by (simp add: endMarker_def js_def)
next
  case (Cons l ls)
  have "lazyMatchEnd ((l @ [newline]) @ concat (map (\<lambda>l. l @ [newline]) ls) @ endMarker @ rest)
          = lazyMatchEnd (concat (map (\<lambda>l. l @ [newline]) ls) @ endMarker @ rest)"
    using lazyMatchEnd_line [of l "concat (map (\<lambda>l. l @ [newline]) ls) @ endMarker @ rest"] Cons.prems
    by simp
  with Cons show ?case by simp
qed

lemma stripFrontMatter_block:
  assumes "\<forall>l \<in> set ls. newline \<notin> set l \<and> \<not> suffix startMarker l"
  shows "stripFrontMatter (startMarker @ [newline] @ concat (map (\<lambda>l. l @ [newline]) ls) @ endMarker @ rest)
           = rest"
proof -
  let ?tail = "concat (map (\<lambda>l. l @ [newline]) ls) @ endMarker @ rest"
  have "lazyMatchEnd ([] @ newline # ?tail) = lazyMatchEnd ?tail"
    by (rule lazyMatchEnd_line) (simp_all add: startMarker_def js_def)
  with lazyMatchEnd_lines [OF assms, of rest]
  have "lazyMatchEnd (newline # ?tail) = Some rest" by simp
  then show ?thesis by (simp add: stripFrontMatter_def)
qed

lemma stripFrontMatter_removes_prefix:
  assumes "body = startMarker @ mid @ endMarker @ rest"
  shows "\<exists>mid'. body = startMarker @ mid' @ endMarker @ stripFrontMatter body"
proof -
  let ?zs = "mid @ endMarker @ rest"
  have "lazyMatchEnd ?zs \<noteq> None"
    using lazyMatchEnd_None [of ?zs mid rest] by blast
  then obtain r where r: "lazyMatchEnd ?zs = Some r" by blast
  then obtain mid' where "?zs = mid' @ endMarker @ r"
    using lazyMatchEnd_Some by blast
  moreover from r assms have "stripFrontMatter body = r" by (simp add: stripFrontMatter_def)
  ultimately show ?thesis using assms by auto
qed

text \<open>
  Claim C5, as the specification states it, fails in both directions. The document
  \<open>---a---\<close>, line break, \<open>b\<close> has neither marker on a line of its own, and its first
  line is removed all the same. The document with the lines \<open>---\<close>, \<open>k: v---\<close>, \<open>x: y\<close>,
  \<open>---\<close>, \<open>text\<close> has both markers on lines of their own, and only its first two lines
  are removed, not the block.
\<close>

theorem front_matter_counterexample:
  "\<not> delimitedBlockAtStart inlineMarkers
   \<and> stripFrontMatter inlineMarkers = js ''b''
   \<and> stripFrontMatter inlineMarkers \<noteq> inlineMarkers
   \<and> delimitedBlockAtStart leakDoc
   \<and> stripFrontMatter leakDoc = js ''x: y'' @ [newline] @ js ''---'' @ [newline] @ js ''text''"
  by code_simp

text \<open>
  Claim C5, amended. Stripping is anchored to the start of the document: a document that
  does not begin with \<open>---\<close>, or in which no \<open>---\<close> with a line break follows, is returned
  unchanged; every other document loses a prefix that begins with \<open>---\<close> and ends with
  \<open>---\<close> and a line break, and nothing else (the markers need no line of their own). A
  document with the start marker on its first line and the end marker on a later line
  ended by a line break is of this kind. When the document begins with the start marker
  on a line of its own, followed by lines of which none ends in \<open>---\<close>, followed by the
  end marker on a line of its own, exactly this block is removed, whatever follows it.
  The pages are made from the stripped text.
\<close>

theorem stripFrontMatter_anchored:
  "((\<forall>mid rest. body \<noteq> startMarker @ mid @ endMarker @ rest) \<longrightarrow> stripFrontMatter body = body)
   \<and> (\<not> prefix startMarker body \<longrightarrow> stripFrontMatter body = body)
   \<and> ((\<exists>mid rest. body = startMarker @ mid @ endMarker @ rest) \<longrightarrow>
        (\<exists>mid. body = startMarker @ mid @ endMarker @ stripFrontMatter body))
   \<and> (delimitedBlockAtStart body \<longrightarrow> (\<exists>mid rest. body = startMarker @ mid @ endMarker @ rest))
   \<and> ((\<forall>l \<in> set ls. newline \<notin> set l \<and> \<not> suffix startMarker l) \<longrightarrow>
        stripFrontMatter (startMarker @ [newline] @ concat (map (\<lambda>l. l @ [newline]) ls) @ endMarker @ rest)
          = rest)
   \<and> generateRedNoteImages measureText png surface body fileName
       = renderLoop measureText png surface fileName 0
           (splitContentIntoPages (stripFrontMatter body)) []"
proof -
  have np: "stripFrontMatter body = body" if "\<not> prefix startMarker body"
    using that by (simp add: stripFrontMatter_def)
  have rm: "\<exists>mid. body = startMarker @ mid @ endMarker @ stripFrontMatter body"
    if "\<exists>mid rest. body = startMarker @ mid @ endMarker @ rest"
    using that stripFrontMatter_removes_prefix by blast
  have pg: "generateRedNoteImages measureText png surface body fileName
       = renderLoop measureText png surface fileName 0
           (splitContentIntoPages (stripFrontMatter body)) []"
    by (simp add: generateRedNoteImages_def)
  from np rm pg stripFrontMatter_unmatched [of body] delimitedBlockAtStart_matches [of body]
    stripFrontMatter_block [of ls rest]
  show ?thesis by blast
qed

theorem stripFrontMatter_anchored_witness:
  "stripFrontMatter frontMatterDoc = js ''text''
   \<and> delimitedBlockAtStart frontMatterDoc
   \<and> stripFrontMatter (js ''plain'') = js ''plain''
   \<and> stripFrontMatter inlineMarkers \<noteq> inlineMarkers"
proof -
  have doc: "frontMatterDoc
               = startMarker @ [newline] @ concat (map (\<lambda>l. l @ [newline]) [js ''key: value''])
                 @ endMarker @ js ''text''"
    by (simp add: frontMatterDoc_def startMarker_def endMarker_def)
  have ok: "\<forall>l \<in> set [js ''key: value'']. newline \<notin> set l \<and> \<not> suffix startMarker l"
    by code_simp
  from stripFrontMatter_anchored [of _ "[js ''key: value'']" "js ''text''"] ok
  have a: "stripFrontMatter frontMatterDoc = js ''text''"
    unfolding doc by blast
  have b: "delimitedBlockAtStart frontMatterDoc" by code_simp
  have "\<not> prefix startMarker (js ''plain'')" by code_simp
  with stripFrontMatter_anchored [of "js ''plain''"]
  have c: "stripFrontMatter (js ''plain'') = js ''plain''" by blast
  have "inlineMarkers = startMarker @ js ''a'' @ endMarker @ js ''b''"
    by (simp add: inlineMarkers_def startMarker_def endMarker_def js_def)
  with stripFrontMatter_anchored [of inlineMarkers]
  obtain mid where "inlineMarkers = startMarker @ mid @ endMarker @ stripFrontMatter inlineMarkers"
    by blast
  then have "length inlineMarkers
               = length startMarker + length mid + length endMarker + length (stripFrontMatter inlineMarkers)"
    by (metis length_append add.assoc)
  then have d: "stripFrontMatter inlineMarkers \<noteq> inlineMarkers"
    by (auto simp: startMarker_def js_def)
  from a b c d show ?thesis by blast
qed

section \<open>Properties of rendering\<close>

lemma drawLines_beyond: "height - 100 < y \<Longrightarrow> drawLines ls (ctx, y) = (ctx, y)"
  by (cases ls) simp_all

lemma drawLines_placed:
  "\<exists>placed. fst (drawLines ls (ctx, y))
       = ctx\<lparr> drawn := drawn ctx @ map (\<lambda>(t, y'). FillText (fillStyle ctx) (font ctx) t margin y') placed \<rparr>
     \<and> (\<forall>(t, y') \<in> set placed. y' \<le> height - 100)
     \<and> prefix (map fst placed) ls
     \<and> y \<le> snd (drawLines ls (ctx, y))
     \<and> (length placed < length ls \<longrightarrow> height - 100 < snd (drawLines ls (ctx, y)))
     \<and> (height - 100 < y \<longrightarrow> placed = [])"
proof (induction ls arbitrary: ctx y)
  case Nil
  have "fst (drawLines [] (ctx, y)) = ctx\<lparr> drawn := drawn ctx @ map (\<lambda>(t, y'). FillText (fillStyle ctx) (font ctx) t margin y') [] \<rparr>"
    by simp
  then show ?case by (intro exI [of _ "[]"]) simp
next
  case (Cons l ls)
  show ?case
  proof (cases "height - 100 < y")
    case True
    then show ?thesis by (intro exI [of _ "[]"]) simp
  next
    case False
    let ?ctx = "fillText ctx l margin y"
    from Cons.IH [of ?ctx "y + lineHeight"]
    obtain placed where p: "fst (drawLines ls (?ctx, y + lineHeight))
          = ?ctx\<lparr> drawn := drawn ?ctx @ map (\<lambda>(t, y'). FillText (fillStyle ?ctx) (font ?ctx) t margin y') placed \<rparr>"
      and b: "\<forall>(t, y') \<in> set placed. y' \<le> height - 100"
      and pre: "prefix (map fst placed) ls"
      and mono: "y + lineHeight \<le> snd (drawLines ls (?ctx, y + lineHeight))"
      and cut: "length placed < length ls \<longrightarrow> height - 100 < snd (drawLines ls (?ctx, y + lineHeight))"
      by blast
    have step: "drawLines (l # ls) (ctx, y) = drawLines ls (?ctx, y + lineHeight)"
      using False by simp
    have "fst (drawLines (l # ls) (ctx, y))
            = ctx\<lparr> drawn := drawn ctx @ map (\<lambda>(t, y'). FillText (fillStyle ctx) (font ctx) t margin y') ((l, y) # placed) \<rparr>"
      by (simp only: step p) (simp add: fillText_def)
    moreover have "\<forall>(t, y') \<in> set ((l, y) # placed). y' \<le> height - 100"
      using False b by simp
    moreover have "prefix (map fst ((l, y) # placed)) (l # ls)"
      using pre by simp
    moreover have "y \<le> snd (drawLines (l # ls) (ctx, y))"
      using mono by (simp only: step) (simp add: lineHeight_def)
    moreover have "length ((l, y) # placed) < length (l # ls) \<longrightarrow> height - 100 < snd (drawLines (l # ls) (ctx, y))"
      using cut by (simp only: step) simp
    moreover have "height - 100 < y \<longrightarrow> (l, y) # placed = []"
      using False by simp
    ultimately show ?thesis by blast
  qed
qed

lemma renderParagraph_fst:
  "fst (renderParagraph measureText maxWidth l st)
     = fst (drawLines (wrapText (measureText (font (fst st))) l maxWidth) st)"
  by (simp add: renderParagraph_def Let_def split: prod.splits)

lemma renderParagraph_snd:
  "snd (renderParagraph measureText maxWidth l st)
     = snd (drawLines (wrapText (measureText (font (fst st))) l maxWidth) st) + 20"
  by (simp add: renderParagraph_def Let_def split: prod.splits)

lemma renderParagraph_advances: "snd st + 20 \<le> snd (renderParagraph measureText maxWidth l st)"
proof -
  obtain ctx y where st: "st = (ctx, y)" by (cases st)
  from drawLines_placed [of "wrapText (measureText (font ctx)) l maxWidth" ctx y]
  have "y \<le> snd (drawLines (wrapText (measureText (font ctx)) l maxWidth) (ctx, y))" by blast
  then show ?thesis by (simp add: renderParagraph_snd st)
qed

lemma drawParagraphs_fold:
  "drawParagraphs measureText maxWidth page ls st
     = fold (renderParagraph measureText maxWidth)
         (filter (\<lambda>l. \<not> (l = title page \<and> pageNumber page = 1)) ls) st"
  by (induction ls arbitrary: st) simp_all

lemma drawParagraphs_placed:
  "\<exists>placed. fst (drawParagraphs measureText maxWidth page ls (ctx, y))
       = ctx\<lparr> drawn := drawn ctx @ map (\<lambda>(t, y'). FillText (fillStyle ctx) (font ctx) t margin y') placed \<rparr>
     \<and> (\<forall>(t, y') \<in> set placed. y' \<le> height - 100)
     \<and> prefix (map fst placed)
          (concat (map (\<lambda>l. wrapText (measureText (font ctx)) l maxWidth)
                     (filter (\<lambda>l. \<not> (l = title page \<and> pageNumber page = 1)) ls)))
     \<and> (height - 100 < y \<longrightarrow> placed = [])"
proof (induction ls arbitrary: ctx y)
  case Nil
  show ?case by (intro exI [of _ "[]"]) simp
next
  case (Cons l ls)
  show ?case
  proof (cases "l = title page \<and> pageNumber page = 1")
    case True
    with Cons.IH [of ctx y] show ?thesis by simp
  next
    case False
    let ?F = "\<lambda>(t, y'). FillText (fillStyle ctx) (font ctx) t margin y'"
    let ?lines = "wrapText (measureText (font ctx)) l maxWidth"
    let ?st = "renderParagraph measureText maxWidth l (ctx, y)"
    let ?rest = "concat (map (\<lambda>l. wrapText (measureText (font ctx)) l maxWidth)
                     (filter (\<lambda>l. \<not> (l = title page \<and> pageNumber page = 1)) ls))"
    from drawLines_placed [of ?lines ctx y]
    obtain p1 where c1: "fst (drawLines ?lines (ctx, y)) = ctx\<lparr> drawn := drawn ctx @ map ?F p1 \<rparr>"
      and b1: "\<forall>(t, y') \<in> set p1. y' \<le> height - 100"
      and pre1: "prefix (map fst p1) ?lines"
      and cut1: "length p1 < length ?lines \<longrightarrow> height - 100 < snd (drawLines ?lines (ctx, y))"
      and none1: "height - 100 < y \<longrightarrow> p1 = []"
      by blast
    let ?ctx1 = "ctx\<lparr> drawn := drawn ctx @ map ?F p1 \<rparr>"
    let ?y1 = "snd (drawLines ?lines (ctx, y)) + 20"
    have st: "?st = (?ctx1, ?y1)"
      using c1 by (simp add: prod_eq_iff renderParagraph_fst renderParagraph_snd)
    from Cons.IH [of ?ctx1 ?y1]
    obtain p2 where c2: "fst (drawParagraphs measureText maxWidth page ls (?ctx1, ?y1))
          = ?ctx1\<lparr> drawn := drawn ?ctx1 @ map ?F p2 \<rparr>"
      and b2: "\<forall>(t, y') \<in> set p2. y' \<le> height - 100"
      and pre2: "prefix (map fst p2) ?rest"
      and none2: "height - 100 < ?y1 \<longrightarrow> p2 = []"
      by auto
    have step: "drawParagraphs measureText maxWidth page (l # ls) (ctx, y)
                  = drawParagraphs measureText maxWidth page ls (?ctx1, ?y1)"
      using False st by auto
    have "fst (drawParagraphs measureText maxWidth page (l # ls) (ctx, y))
            = ctx\<lparr> drawn := drawn ctx @ map ?F (p1 @ p2) \<rparr>"
      by (simp only: step c2) simp
    moreover have "\<forall>(t, y') \<in> set (p1 @ p2). y' \<le> height - 100"
      using b1 b2 by auto
    moreover have "prefix (map fst (p1 @ p2)) (?lines @ ?rest)"
    proof (cases "length p1 < length ?lines")
      case True
      with cut1 none2 have "p2 = []" by simp
      with pre1 show ?thesis by (simp add: prefix_prefix)
    next
      case False
      from pre1 obtain zs where zs: "?lines = map fst p1 @ zs"
        by (auto simp: prefix_def)
      then have "length ?lines = length p1 + length zs"
        by (metis length_append length_map)
      with False have "zs = []" by simp
      with zs have "map fst p1 = ?lines" by simp
      with pre2 show ?thesis by simp
    qed
    moreover have "height - 100 < y \<longrightarrow> p1 @ p2 = []"
    proof
      assume beyond: "height - 100 < y"
      then have "snd (drawLines ?lines (ctx, y)) = y" by (simp add: drawLines_beyond)
      with beyond none2 have "p2 = []" by simp
      with beyond none1 show "p1 @ p2 = []" by simp
    qed
    ultimately show ?thesis using False by (intro exI [of _ "p1 @ p2"]) simp
  qed
qed

lemma toDataURL_truthy: "truthy (toDataURL png ctx)"
  by (simp add: toDataURL_def truthy_def js_def)

lemma returned_absent:
  "(returned (generateSinglePageImage measureText png getContext page fileName) = None)
     = (getContext = None)"
  by (cases getContext) (simp_all add: generateSinglePageImage_def Let_def split_beta)

lemma returned_truthy_cases:
  "(case returned (generateSinglePageImage measureText png getContext page fileName) of
      None \<Rightarrow> True
    | Some url \<Rightarrow> truthy url)"
  by (cases getContext) (simp_all add: generateSinglePageImage_def Let_def split_beta toDataURL_truthy)

lemma returned_truthy:
  assumes "returned (generateSinglePageImage measureText png getContext page fileName) = Some url"
  shows "truthy url"
  using returned_truthy_cases [of measureText png getContext page fileName] assms
  by simp

lemma painted_absent:
  "painted (generateSinglePageImage measureText png None page fileName) = []"
  by (simp add: generateSinglePageImage_def)

lemma renderLoop_map_filter:
  "renderLoop measureText png surface fileName k pages images
     = images @ List.map_filter
         (\<lambda>(i, page). returned (generateSinglePageImage measureText png
                                   (if surface i then Some freshContext else None) page fileName))
         (zip [k ..< k + length pages] pages)"
proof (induction pages arbitrary: k images)
  case Nil
  show ?case by (simp add: List.map_filter_simps)
next
  case (Cons page pages)
  let ?r = "returned (generateSinglePageImage measureText png
                        (if surface k then Some freshContext else None) page fileName)"
  have z: "zip [k ..< k + length (page # pages)] (page # pages)
             = (k, page) # zip [Suc k ..< Suc k + length pages] pages"
    by (simp add: upt_conv_Cons del: upt_Suc)
  show ?case
  proof (cases ?r)
    case None
    then show ?thesis
      using Cons.IH [of "Suc k" images] by (simp only: z) (simp add: List.map_filter_simps)
  next
    case (Some url)
    then have "truthy url" by (rule returned_truthy)
    with Some show ?thesis
      using Cons.IH [of "Suc k" "images @ [url]"] by (simp only: z) (simp add: List.map_filter_simps)
  qed
qed

lemma longPage_painted:
  "length (painted (generateSinglePageImage wideMetrics samplePng (Some freshContext) longPage [])) = 26"
  by code_simp

lemma longPage_wrapped:
  "length (wrapText (wideMetrics (js ''36px \"PingFang SC\"'')) (content longPage ! 1)
             (real_of_int (width - margin * 2))) = 30"
  by code_simp

lemma doc13_pages: "length (splitContentIntoPages (stripFrontMatter doc13)) = 2"
  by code_simp

lemma footer_text: "numberToString 1 @ js ''/'' @ numberToString 1 = js ''1/1''"
  by code_simp

text \<open>
  Claim C7. Once the vertical cursor is beyond the bottom content boundary (the canvas
  height minus 100), neither the rest of the paragraph nor any later paragraph draws
  anything. What a page rendering draws is, in this order: the background, the title,
  body lines and the footer; every body line is drawn at a height not below the
  boundary, the body lines drawn are an initial part of the wrapped lines of the page
  (so after the first line left out nothing more is drawn), and the footer
  \<open>pageNumber/totalPages\<close> is always the last thing drawn, below the boundary, whether or
  not body lines were left out.
\<close>

theorem body_stops_at_boundary:
  "(height - 100 < y \<longrightarrow>
      fst (drawLines ls (ctx, y)) = ctx
      \<and> fst (drawParagraphs measureText maxWidth page ps (ctx, y)) = ctx)
   \<and> (\<exists>placed.
        painted (generateSinglePageImage measureText png (Some ctx0) page fileName)
          = drawn ctx0
            @ [FillRect (js ''#ffffff'') 0 0 width height,
               FillText (js ''#333333'') (js ''bold 48px \"PingFang SC\"'') (title page) margin (margin + 50)]
            @ map (\<lambda>(t, y'). FillText (js ''#333333'') (js ''36px \"PingFang SC\"'') t margin y') placed
            @ [FillText (js ''#666666'') (js ''28px \"PingFang SC\"'')
                 (numberToString (pageNumber page) @ js ''/'' @ numberToString (totalPages page))
                 (width - 100) (height - 50)]
        \<and> (\<forall>(t, y') \<in> set placed. y' \<le> height - 100)
        \<and> prefix (map fst placed)
             (concat (map (\<lambda>l. wrapText (measureText (js ''36px \"PingFang SC\"'')) l
                                   (real_of_int (width - margin * 2)))
                        (filter (\<lambda>l. \<not> (l = title page \<and> pageNumber page = 1)) (content page)))))"
proof -
  let ?body = "js ''36px \"PingFang SC\"''"
  let ?W = "real_of_int (width - margin * 2)"
  let ?ctx2 = "fillText ((fillRect (ctx0\<lparr> fillStyle := js ''#ffffff'' \<rparr>) 0 0 width height)
                           \<lparr> fillStyle := js ''#333333'', font := js ''bold 48px \"PingFang SC\"'' \<rparr>)
                 (title page) margin (margin + 50)"
  let ?ctx3 = "?ctx2\<lparr> font := ?body \<rparr>"
  let ?y1 = "margin + 50 + 100"
  let ?ctx4 = "fst (drawParagraphs measureText ?W page (content page) (?ctx3, ?y1))"
  let ?footer = "numberToString (pageNumber page) @ js ''/'' @ numberToString (totalPages page)"
  have a: "fst (drawLines ls (ctx, y)) = ctx
           \<and> fst (drawParagraphs measureText maxWidth page ps (ctx, y)) = ctx"
    if beyond: "height - 100 < y"
  proof -
    from drawParagraphs_placed [of measureText maxWidth page ps ctx y] beyond
    have "fst (drawParagraphs measureText maxWidth page ps (ctx, y)) = ctx\<lparr> drawn := drawn ctx @ [] \<rparr>"
      by auto
    with beyond show ?thesis by (simp add: drawLines_beyond)
  qed
  have g: "painted (generateSinglePageImage measureText png (Some ctx0) page fileName)
             = drawn (fillText (?ctx4\<lparr> fillStyle := js ''#666666'', font := js ''28px \"PingFang SC\"'' \<rparr>)
                        ?footer (width - 100) (height - 50))"
    by (simp add: generateSinglePageImage_def Let_def split_beta)
  have f3: "fillStyle ?ctx3 = js ''#333333''" "font ?ctx3 = ?body"
    "drawn ?ctx3 = drawn ctx0 @ [FillRect (js ''#ffffff'') 0 0 width height,
        FillText (js ''#333333'') (js ''bold 48px \"PingFang SC\"'') (title page) margin (margin + 50)]"
    by (simp_all add: fillText_def fillRect_def)
  from drawParagraphs_placed [of measureText ?W page "content page" ?ctx3 ?y1]
  obtain placed where c: "?ctx4 = ?ctx3\<lparr> drawn := drawn ?ctx3
          @ map (\<lambda>(t, y'). FillText (fillStyle ?ctx3) (font ?ctx3) t margin y') placed \<rparr>"
    and bound: "\<forall>(t, y') \<in> set placed. y' \<le> height - 100"
    and pre: "prefix (map fst placed)
          (concat (map (\<lambda>l. wrapText (measureText (font ?ctx3)) l ?W)
                     (filter (\<lambda>l. \<not> (l = title page \<and> pageNumber page = 1)) (content page))))"
    by blast
  have "painted (generateSinglePageImage measureText png (Some ctx0) page fileName)
          = drawn ?ctx3 @ map (\<lambda>(t, y'). FillText (fillStyle ?ctx3) (font ?ctx3) t margin y') placed
            @ [FillText (js ''#666666'') (js ''28px \"PingFang SC\"'') ?footer (width - 100) (height - 50)]"
    by (simp only: g c) (simp add: fillText_def)
  then have "painted (generateSinglePageImage measureText png (Some ctx0) page fileName)
          = drawn ctx0
            @ [FillRect (js ''#ffffff'') 0 0 width height,
               FillText (js ''#333333'') (js ''bold 48px \"PingFang SC\"'') (title page) margin (margin + 50)]
            @ map (\<lambda>(t, y'). FillText (js ''#333333'') ?body t margin y') placed
            @ [FillText (js ''#666666'') (js ''28px \"PingFang SC\"'') ?footer (width - 100) (height - 50)]"
    by (simp only: f3 append_assoc)
  moreover from pre have "prefix (map fst placed)
          (concat (map (\<lambda>l. wrapText (measureText ?body) l ?W)
                     (filter (\<lambda>l. \<not> (l = title page \<and> pageNumber page = 1)) (content page))))"
    by (simp only: f3)
  ultimately show ?thesis using a bound by blast
qed

theorem body_stops_at_boundary_witness:
  "fst (drawLines [js ''a''] (freshContext, 1350)) = freshContext
   \<and> fst (drawParagraphs wideMetrics 960 longPage (content longPage) (freshContext, 1350)) = freshContext
   \<and> last (painted (generateSinglePageImage wideMetrics samplePng (Some freshContext) longPage []))
       = FillText (js ''#666666'') (js ''28px \"PingFang SC\"'') (js ''1/1'') 980 1390
   \<and> length (painted (generateSinglePageImage wideMetrics samplePng (Some freshContext) longPage [])) = 26
   \<and> length (wrapText (wideMetrics (js ''36px \"PingFang SC\"'')) (content longPage ! 1)
                (real_of_int (width - margin * 2))) = 30"
proof -
  have h: "height - 100 < 1350" by (simp add: height_def)
  have p: "pageNumber longPage = 1" "totalPages longPage = 1" by (simp_all add: longPage_def)
  from body_stops_at_boundary
    [of 1350 "[js ''a'']" freshContext wideMetrics 960 longPage "content longPage"
        samplePng freshContext "[]"] h
  have a: "fst (drawLines [js ''a''] (freshContext, 1350)) = freshContext
           \<and> fst (drawParagraphs wideMetrics 960 longPage (content longPage) (freshContext, 1350)) = freshContext"
    and ex: "\<exists>front. painted (generateSinglePageImage wideMetrics samplePng (Some freshContext) longPage [])
           = front @ [FillText (js ''#666666'') (js ''28px \"PingFang SC\"'')
                 (numberToString (pageNumber longPage) @ js ''/'' @ numberToString (totalPages longPage))
                 (width - 100) (height - 50)]"
    by (blast, metis append_assoc)
  have w: "width - 100 = 980" "height - 50 = 1390" by (simp_all add: width_def height_def)
  from ex obtain front where "painted (generateSinglePageImage wideMetrics samplePng (Some freshContext) longPage [])
           = front @ [FillText (js ''#666666'') (js ''28px \"PingFang SC\"'') (js ''1/1'') 980 1390]"
    unfolding p footer_text w by blast
  then have "last (painted (generateSinglePageImage wideMetrics samplePng (Some freshContext) longPage []))
       = FillText (js ''#666666'') (js ''28px \"PingFang SC\"'') (js ''1/1'') 980 1390"
    by simp
  with a longPage_painted longPage_wrapped show ?thesis by blast
qed

text \<open>
  Claim C8. In rendering, a line of the page is skipped, so that neither the canvas nor
  the cursor changes, if and only if it equals the title of the page and the page number
  is 1: the loop does to the page what wrapping and drawing does to exactly the lines
  that are not of this kind, every one of them (also a later line that happens to equal
  the title is skipped on page 1); on a page with another page number no line is skipped;
  and a line that is not skipped always moves the cursor, by 20 at least.
\<close>

theorem title_line_skipped_on_first_page_only:
  "drawParagraphs measureText maxWidth page ls st
     = fold (renderParagraph measureText maxWidth)
         (filter (\<lambda>l. \<not> (l = title page \<and> pageNumber page = 1)) ls) st
   \<and> (pageNumber page \<noteq> 1 \<longrightarrow>
        drawParagraphs measureText maxWidth page ls st = fold (renderParagraph measureText maxWidth) ls st)
   \<and> ((drawParagraphs measureText maxWidth page [l] st = st) = (l = title page \<and> pageNumber page = 1))
   \<and> snd st + 20 \<le> snd (renderParagraph measureText maxWidth l st)"
proof -
  have adv: "snd st + 20 \<le> snd (renderParagraph measureText maxWidth l st)"
    by (rule renderParagraph_advances)
  then have "renderParagraph measureText maxWidth l st \<noteq> st" by auto
  then have one: "(drawParagraphs measureText maxWidth page [l] st = st) = (l = title page \<and> pageNumber page = 1)"
    by auto
  have later: "drawParagraphs measureText maxWidth page ls st = fold (renderParagraph measureText maxWidth) ls st"
    if "pageNumber page \<noteq> 1"
    using that by (simp add: drawParagraphs_fold)
  from adv one later drawParagraphs_fold [of measureText maxWidth page ls st]
  show ?thesis by blast
qed

theorem title_line_skipped_on_first_page_only_witness:
  "drawParagraphs wideMetrics 960 longPage [js ''T''] (freshContext, 210) = (freshContext, 210)
   \<and> drawParagraphs wideMetrics 960 laterPage [continuationTitle] (freshContext, 210) \<noteq> (freshContext, 210)
   \<and> drawParagraphs wideMetrics 960 laterPage (content laterPage) (freshContext, 210)
       = fold (renderParagraph wideMetrics 960) (content laterPage) (freshContext, 210)"
proof -
  have first: "js ''T'' = title longPage \<and> pageNumber longPage = 1"
    by (simp add: longPage_def)
  have later: "pageNumber laterPage \<noteq> 1"
    by (simp add: laterPage_def)
  from title_line_skipped_on_first_page_only
    [of wideMetrics 960 longPage "[js ''T'']" "(freshContext, 210)" "js ''T''"] first
  have a: "drawParagraphs wideMetrics 960 longPage [js ''T''] (freshContext, 210) = (freshContext, 210)"
    by blast
  from title_line_skipped_on_first_page_only
    [of wideMetrics 960 laterPage "content laterPage" "(freshContext, 210)" continuationTitle] later
  have b: "drawParagraphs wideMetrics 960 laterPage [continuationTitle] (freshContext, 210) \<noteq> (freshContext, 210)"
    and c: "drawParagraphs wideMetrics 960 laterPage (content laterPage) (freshContext, 210)
       = fold (renderParagraph wideMetrics 960) (content laterPage) (freshContext, 210)"
    by blast+
  from a b c show ?thesis by blast
qed

text \<open>
  Claim C9. Rendering one page returns nothing exactly when no drawing context was
  obtained, and then nothing has been drawn. The loop over the pages collects, in the
  order of the pages, the value returned for every page whose rendering returned one, so
  the list of images has one image for each page whose canvas gave a context, and a page
  without one is passed over without ending the loop.
\<close>

theorem absent_page_skipped:
  "((returned (generateSinglePageImage measureText png getContext page fileName) = None)
      = (getContext = None))
   \<and> (getContext = None \<longrightarrow>
        painted (generateSinglePageImage measureText png getContext page fileName) = [])
   \<and> generateRedNoteImages measureText png surface body fileName
       = List.map_filter
           (\<lambda>(k, page). returned (generateSinglePageImage measureText png
                                     (if surface k then Some freshContext else None) page fileName))
           (zip [0 ..< length (splitContentIntoPages (stripFrontMatter body))]
                (splitContentIntoPages (stripFrontMatter body)))
   \<and> length (generateRedNoteImages measureText png surface body fileName)
       = length (filter surface [0 ..< length (splitContentIntoPages (stripFrontMatter body))])"
proof -
  let ?pages = "splitContentIntoPages (stripFrontMatter body)"
  let ?f = "\<lambda>(k, page). returned (generateSinglePageImage measureText png
                                     (if surface k then Some freshContext else None) page fileName)"
  have imgs: "generateRedNoteImages measureText png surface body fileName
                = List.map_filter ?f (zip [0 ..< length ?pages] ?pages)"
    using renderLoop_map_filter [of measureText png surface fileName 0 ?pages "[]"]
    by (simp add: generateRedNoteImages_def)
  have len: "length (List.map_filter ?f (zip ks ps)) = length (filter surface ks)"
    if "length ks = length ps" for ks ps
    using that
  proof (induction ks ps rule: list_induct2)
    case Nil
    show ?case by (simp add: List.map_filter_simps)
  next
    case (Cons k ks p ps)
    show ?case
    proof (cases "surface k")
      case True
      then obtain url where "returned (generateSinglePageImage measureText png
                               (if surface k then Some freshContext else None) p fileName) = Some url"
        using returned_absent [of measureText png "Some freshContext" p fileName] by auto
      with True Cons.IH show ?thesis by (simp add: List.map_filter_simps)
    next
      case False
      then have "returned (generateSinglePageImage measureText png
                   (if surface k then Some freshContext else None) p fileName) = None"
        by (simp add: returned_absent)
      with False Cons.IH show ?thesis by (simp add: List.map_filter_simps)
    qed
  qed
  from len [of "[0 ..< length ?pages]" ?pages] imgs
  have "length (generateRedNoteImages measureText png surface body fileName)
          = length (filter surface [0 ..< length ?pages])" by simp
  with imgs returned_absent [of measureText png getContext page fileName] painted_absent
  show ?thesis by blast
qed

theorem absent_page_skipped_witness:
  "returned (generateSinglePageImage wideMetrics samplePng None longPage []) = None
   \<and> painted (generateSinglePageImage wideMetrics samplePng None longPage []) = []
   \<and> length (generateRedNoteImages wideMetrics samplePng (\<lambda>k. k \<noteq> 0) doc13 []) = 1"
proof -
  have f: "length (filter (\<lambda>k. k \<noteq> 0) [0 ..< 2]) = 1"
    by (simp add: upt_rec)
  from absent_page_skipped [of wideMetrics samplePng None longPage "[]" "\<lambda>k. k \<noteq> 0" doc13]
  have "returned (generateSinglePageImage wideMetrics samplePng None longPage []) = None"
    and "painted (generateSinglePageImage wideMetrics samplePng None longPage []) = []"
    and "length (generateRedNoteImages wideMetrics samplePng (\<lambda>k. k \<noteq> 0) doc13 [])
           = length (filter (\<lambda>k. k \<noteq> 0) [0 ..< length (splitContentIntoPages (stripFrontMatter doc13))])"
    by blast+
  then show ?thesis by (simp only: doc13_pages f simp_thms)
qed

end
